theory Spec2Isabelle
  imports Main "HOL-Library.Multiset"
begin

section \<open>JavaScript strings and the built-ins the dashboard calls\<close>

text \<open>
  A JavaScript string is a sequence of UTF-16 code units. The model writes a string as a
  \<^typ>\<open>string\<close>; a \<^typ>\<open>char\<close> stands for the code unit of the same number, so the
  model covers the texts whose code units lie in U+0000..U+00FF. On that range the
  built-ins below are the ones of ECMAScript.
\<close>

text \<open>
  \<^verbatim>\<open>String.prototype.split(sep)\<close> with a separator of one code unit: the pieces between the
  occurrences of the separator, empty pieces kept; the empty string splits into one
  empty piece.
\<close>

fun split :: "char \<Rightarrow> string \<Rightarrow> string list" where
  "split sep [] = [[]]"
| "split sep (c # cs) =
     (if c = sep then [] # split sep cs
      else (case split sep cs of
              [] \<Rightarrow> [[c]]
            | w # ws \<Rightarrow> (c # w) # ws))"

text \<open>
  White space and line terminators below U+0100: TAB, LF, VT, FF, CR, SPACE and
  NO-BREAK SPACE. \<^verbatim>\<open>String.prototype.trim\<close> removes them from both ends.
\<close>

definition isWhiteSpace :: "char \<Rightarrow> bool" where
  "isWhiteSpace c \<longleftrightarrow>
     c \<in> set [CHR 0x09, CHR 0x0A, CHR 0x0B, CHR 0x0C, CHR 0x0D, CHR 0x20, CHR 0xA0]"

definition trim :: "string \<Rightarrow> string" where
  "trim s = rev (dropWhile isWhiteSpace (rev (dropWhile isWhiteSpace s)))"

text \<open>
  \<^verbatim>\<open>String.prototype.toLowerCase\<close> below U+0100: the letters A..Z and the Latin-1 capitals
  U+00C0..U+00DE (U+00D7, the multiplication sign, apart) move up by 32; every other
  code unit stays.
\<close>

definition lowerChar :: "char \<Rightarrow> char" where
  "lowerChar c =
     (let n = (of_char c :: nat)
      in if (65 \<le> n \<and> n \<le> 90) \<or> (192 \<le> n \<and> n \<le> 222 \<and> n \<noteq> 215)
         then char_of (n + 32) else c)"

definition toLowerCase :: "string \<Rightarrow> string" where
  "toLowerCase s = map lowerChar s"

text \<open>\<^verbatim>\<open>line.replace(/\r$/, "")\<close>: one carriage return at the very end is removed.\<close>

definition stripTrailingCR :: "string \<Rightarrow> string" where
  "stripTrailingCR line =
     (if line \<noteq> [] \<and> last line = CHR 0x0D then butlast line else line)"

subsection \<open>\<^verbatim>\<open>Number(s)\<close>: which strings are not NaN\<close>

text \<open>
  \<^verbatim>\<open>Number(s)\<close> trims \<open>s\<close> and reads it by the grammar \<open>StringNumericLiteral\<close>: the
  empty string is 0; otherwise a signed decimal literal (digits with an optional
  fraction and exponent, or \<open>Infinity\<close>), or an unsigned binary, octal or hexadecimal
  integer. Any other text is NaN. Only the question "NaN or not" is needed, so the
  recogniser returns a truth value and no floating-point number.
\<close>

definition isDecimalDigit :: "char \<Rightarrow> bool" where
  "isDecimalDigit c \<longleftrightarrow> c \<in> set ''0123456789''"

definition isBinaryDigit :: "char \<Rightarrow> bool" where
  "isBinaryDigit c \<longleftrightarrow> c \<in> set ''01''"

definition isOctalDigit :: "char \<Rightarrow> bool" where
  "isOctalDigit c \<longleftrightarrow> c \<in> set ''01234567''"

definition isHexDigit :: "char \<Rightarrow> bool" where
  "isHexDigit c \<longleftrightarrow> c \<in> set ''0123456789abcdefABCDEF''"

definition decimalDigits :: "string \<Rightarrow> bool" where
  "decimalDigits s \<longleftrightarrow> s \<noteq> [] \<and> list_all isDecimalDigit s"

definition signedInteger :: "string \<Rightarrow> bool" where
  "signedInteger s =
     (case s of
        [] \<Rightarrow> False
      | c # r \<Rightarrow> if c = CHR ''+'' \<or> c = CHR ''-'' then decimalDigits r
                 else decimalDigits s)"

definition exponentPartOpt :: "string \<Rightarrow> bool" where
  "exponentPartOpt s =
     (case s of
        [] \<Rightarrow> True
      | c # r \<Rightarrow> (c = CHR ''e'' \<or> c = CHR ''E'') \<and> signedInteger r)"

definition strUnsignedDecimalLiteral :: "string \<Rightarrow> bool" where
  "strUnsignedDecimalLiteral s =
     (if s = ''Infinity'' then True
      else
        (let ds = takeWhile isDecimalDigit s; r = dropWhile isDecimalDigit s
         in case r of
              [] \<Rightarrow> ds \<noteq> []
            | c # r' \<Rightarrow>
                if c = CHR ''.''
                then (ds \<noteq> [] \<or> takeWhile isDecimalDigit r' \<noteq> [])
                     \<and> exponentPartOpt (dropWhile isDecimalDigit r')
                else ds \<noteq> [] \<and> exponentPartOpt r))"

definition strDecimalLiteral :: "string \<Rightarrow> bool" where
  "strDecimalLiteral s =
     (case s of
        [] \<Rightarrow> False
      | c # r \<Rightarrow> if c = CHR ''+'' \<or> c = CHR ''-'' then strUnsignedDecimalLiteral r
                 else strUnsignedDecimalLiteral s)"

definition nonDecimalIntegerLiteral :: "string \<Rightarrow> bool" where
  "nonDecimalIntegerLiteral s =
     (case s of
        z # p # r \<Rightarrow>
          z = CHR ''0'' \<and> r \<noteq> [] \<and>
          (if p = CHR ''b'' \<or> p = CHR ''B'' then list_all isBinaryDigit r
           else if p = CHR ''o'' \<or> p = CHR ''O'' then list_all isOctalDigit r
           else if p = CHR ''x'' \<or> p = CHR ''X'' then list_all isHexDigit r
           else False)
      | _ \<Rightarrow> False)"

definition strNumericLiteral :: "string \<Rightarrow> bool" where
  "strNumericLiteral s \<longleftrightarrow> strDecimalLiteral s \<or> nonDecimalIntegerLiteral s"

text \<open>\<^verbatim>\<open>Number.isNaN(Number(s))\<close>.\<close>

definition numberIsNaN :: "string \<Rightarrow> bool" where
  "numberIsNaN s = (let t = trim s in \<not> (t = [] \<or> strNumericLiteral t))"

subsection \<open>Arrays\<close>

text \<open>
  \<^verbatim>\<open>xs[i]\<close> for an integer \<open>i\<close>: the element, or \<open>undefined\<close> (here \<open>None\<close>) outside the
  array.
\<close>

definition at :: "'a list \<Rightarrow> int \<Rightarrow> 'a option" where
  "at xs i = (if 0 \<le> i \<and> i < int (length xs) then Some (xs ! nat i) else None)"

text \<open>\<^verbatim>\<open>xs.indexOf(x)\<close>: the first position of \<open>x\<close>, or \<open>-1\<close>.\<close>

fun indexOf :: "'a list \<Rightarrow> 'a \<Rightarrow> int" where
  "indexOf [] x = -1"
| "indexOf (y # ys) x =
     (if y = x then 0
      else (let i = indexOf ys x in if i = -1 then -1 else i + 1))"

text \<open>\<^verbatim>\<open>xs.some(p)\<close> and \<^verbatim>\<open>xs.find(p)\<close>, left to right.\<close>

fun some :: "('a \<Rightarrow> bool) \<Rightarrow> 'a list \<Rightarrow> bool" where
  "some p [] = False"
| "some p (x # xs) = (if p x then True else some p xs)"

fun findFirst :: "('a \<Rightarrow> bool) \<Rightarrow> 'a list \<Rightarrow> 'a option" where
  "findFirst p [] = None"
| "findFirst p (x # xs) = (if p x then Some x else findFirst p xs)"

section \<open>Ingestion: \<^verbatim>\<open>parseCsvToRaces\<close>\<close>

record race =
  id :: int
  name :: string
  month :: string
  website :: string
  registered :: bool
  finishTime :: string

datatype error = SchemaError

text \<open>The non-blank lines of the text, each without its trailing carriage return.\<close>

definition csvLines :: "string \<Rightarrow> string list" where
  "csvLines text =
     filter (\<lambda>line. length (trim line) > 0)
       (map stripTrailingCR (split (CHR 0x0A) text))"

definition looksLikeHeader :: "string list \<Rightarrow> bool" where
  "looksLikeHeader firstLineCells =
     some (\<lambda>cell. let trimmed = trim cell
                   in if trimmed = [] then False else numberIsNaN trimmed)
       firstLineCells"

definition nameCandidates :: "string list" where
  "nameCandidates =
     [''name'', ''race'', ''race name'', ''race_name'', ''race title'', ''event'',
      ''event name'']"

definition monthCandidates :: "string list" where
  "monthCandidates =
     [''month'', ''race month'', ''month held'', ''month_of_race'', ''race month held'']"

definition websiteCandidates :: "string list" where
  "websiteCandidates = [''website'', ''url'', ''link'', ''race website'', ''race url'']"

text \<open>
  \<^verbatim>\<open>candidates.map((key) => headers.indexOf(key)).find((idx) => idx !== -1)\<close>; \<open>None\<close> is
  \<open>undefined\<close>.
\<close>

definition findIdx :: "string list \<Rightarrow> string list \<Rightarrow> int option" where
  "findIdx candidates headers =
     findFirst (\<lambda>idx. idx \<noteq> -1) (map (\<lambda>key. indexOf headers key) candidates)"

text \<open>
  The two branches that assign \<open>nameIdx\<close>, \<open>monthIdx\<close>, \<open>websiteIdx\<close> and \<open>startIndex\<close>.
\<close>

definition columnMapping :: "string list \<Rightarrow> int option \<times> int option \<times> int option \<times> nat" where
  "columnMapping firstLineCells =
     (if looksLikeHeader firstLineCells
      then (let headers = map (\<lambda>h. toLowerCase (trim h)) firstLineCells
            in (findIdx nameCandidates headers,
                findIdx monthCandidates headers,
                findIdx websiteCandidates headers,
                1))
      else (Some 1, Some 2, Some 3, 0))"

text \<open>\<^verbatim>\<open>(cells[i] || "")\<close>: an absent cell counts as the empty string.\<close>

definition cellOrEmpty :: "string list \<Rightarrow> int \<Rightarrow> string" where
  "cellOrEmpty cells i = (case at cells i of None \<Rightarrow> [] | Some c \<Rightarrow> c)"

text \<open>
  The callback of \<^verbatim>\<open>lines.slice(startIndex).map((line, index) => ...)\<close>. \<open>Date.now()\<close> is
  read once per row; \<open>clock index\<close> is the reading taken for the row at \<open>index\<close>.
\<close>

definition parseRow ::
  "int \<Rightarrow> int \<Rightarrow> int option \<Rightarrow> (nat \<Rightarrow> int) \<Rightarrow> string \<times> nat \<Rightarrow> race" where
  "parseRow nameIdx monthIdx websiteIdx clock p =
     (case p of (line, index) \<Rightarrow>
        (let cells = split (CHR '','') line;
             name = trim (cellOrEmpty cells nameIdx);
             month = trim (cellOrEmpty cells monthIdx);
             website =
               (case websiteIdx of
                  None \<Rightarrow> []
                | Some w \<Rightarrow>
                    if w \<noteq> -1 \<and> at cells w \<noteq> None \<and> at cells w \<noteq> Some []
                    then trim (cellOrEmpty cells w) else [])
         in \<lparr>id = clock index + int index, name = name, month = month,
             website = website, registered = False, finishTime = []\<rparr>))"

definition parseCsvToRaces :: "(nat \<Rightarrow> int) \<Rightarrow> string \<Rightarrow> error + race list" where
  "parseCsvToRaces clock text =
     (let lines = csvLines text
      in if length lines = 0 then Inr []
         else
           (let firstLineCells = split (CHR '','') (lines ! 0)
            in case columnMapping firstLineCells of
                 (nameIdx, monthIdx, websiteIdx, startIndex) \<Rightarrow>
                   if nameIdx = None \<or> nameIdx = Some (-1) \<or>
                      monthIdx = None \<or> monthIdx = Some (-1)
                   then Inl SchemaError
                   else
                     (let rows = drop startIndex lines;
                          parsed = map (parseRow (the nameIdx) (the monthIdx) websiteIdx clock)
                                     (zip rows [0 ..< length rows])
                      in Inr (filter (\<lambda>race. name race \<noteq> [] \<and> month race \<noteq> []) parsed))))"

section \<open>Ordering: \<^verbatim>\<open>sortByMonth\<close>\<close>

definition monthOrder :: "string list" where
  "monthOrder =
     [''January'', ''February'', ''March'', ''April'', ''May'', ''June'', ''July'',
      ''August'', ''September'', ''October'', ''November'', ''December'']"

text \<open>\<^verbatim>\<open>Number.MAX_SAFE_INTEGER\<close>.\<close>

definition MAX_SAFE_INTEGER :: int where
  "MAX_SAFE_INTEGER = 2 ^ 53 - 1"

text \<open>
  \<^verbatim>\<open>(s || "")\<close> for a string \<open>s\<close>: the empty string is the only falsy string, and it is
  replaced by the empty string.
\<close>

definition orEmpty :: "string \<Rightarrow> string" where
  "orEmpty s = (if s = [] then [] else s)"

text \<open>
  The comparator passed to \<^verbatim>\<open>sort\<close>. \<^verbatim>\<open>String.prototype.localeCompare\<close> is the host's
  collation; it is a parameter of the model. The ranks are integers of magnitude below
  \<open>2^53\<close>, on which the subtraction of JavaScript numbers is the subtraction of integers.
\<close>

definition compareByMonth :: "(string \<Rightarrow> string \<Rightarrow> int) \<Rightarrow> race \<Rightarrow> race \<Rightarrow> int" where
  "compareByMonth localeCompare a b =
     (let am = trim (orEmpty (month a));
          bm = trim (orEmpty (month b));
          ai = indexOf monthOrder am;
          bi = indexOf monthOrder bm;
          aIndex = (if ai = -1 then MAX_SAFE_INTEGER else ai);
          bIndex = (if bi = -1 then MAX_SAFE_INTEGER else bi)
      in if aIndex \<noteq> bIndex then aIndex - bIndex
         else localeCompare (orEmpty (name a)) (orEmpty (name b)))"

text \<open>The rank the comparator gives a record: \<open>aIndex\<close> above.\<close>

definition monthRank :: "race \<Rightarrow> int" where
  "monthRank a =
     (let am = trim (orEmpty (month a));
          ai = indexOf monthOrder am
      in if ai = -1 then MAX_SAFE_INTEGER else ai)"

text \<open>
  \<^verbatim>\<open>Array.prototype.sort(comparefn)\<close>. ECMAScript asks of a consistent comparator (one
  that orders its arguments like a total preorder) that the result is the sorted
  permutation in which elements that compare equal keep their order; that list is unique,
  and it is the one this stable insertion sort returns. For a comparator that is not
  consistent the order is left to the implementation.
\<close>

definition consistentComparator :: "('a \<Rightarrow> 'a \<Rightarrow> int) \<Rightarrow> bool" where
  "consistentComparator cmp \<longleftrightarrow>
     (\<forall>a b. (cmp a b < 0) = (0 < cmp b a)) \<and>
     (\<forall>a b c. cmp a b \<le> 0 \<and> cmp b c \<le> 0 \<longrightarrow> cmp a c \<le> 0)"

fun insertSorted :: "('a \<Rightarrow> 'a \<Rightarrow> int) \<Rightarrow> 'a \<Rightarrow> 'a list \<Rightarrow> 'a list" where
  "insertSorted cmp x [] = [x]"
| "insertSorted cmp x (y # ys) =
     (if cmp x y \<le> 0 then x # y # ys else y # insertSorted cmp x ys)"

fun sortWith :: "('a \<Rightarrow> 'a \<Rightarrow> int) \<Rightarrow> 'a list \<Rightarrow> 'a list" where
  "sortWith cmp [] = []"
| "sortWith cmp (x # xs) = insertSorted cmp x (sortWith cmp xs)"

text \<open>\<^verbatim>\<open>sortByMonth\<close> on the values of the records.\<close>

definition sortByMonth :: "(string \<Rightarrow> string \<Rightarrow> int) \<Rightarrow> race list \<Rightarrow> race list" where
  "sortByMonth localeCompare races = sortWith (compareByMonth localeCompare) races"

subsection \<open>\<^verbatim>\<open>sortByMonth\<close> on a store\<close>

text \<open>
  Arrays and records are objects: an array holds references to records, and \<^verbatim>\<open>sort\<close>
  works in place. The store maps references to records and to arrays; \<open>nextRef\<close> is
  the next unused reference. \<^verbatim>\<open>[...races]\<close> allocates a new array with the same
  references, \<^verbatim>\<open>sort\<close> reorders that array, reading the records through the store, and
  its reference is returned. \<open>None\<close> stands for a \<open>TypeError\<close>: the argument is no array,
  or an element is no record.
\<close>

record store =
  records :: "nat \<Rightarrow> race option"
  arrays :: "nat \<Rightarrow> nat list option"
  nextRef :: nat

definition sortByMonthStore ::
  "(string \<Rightarrow> string \<Rightarrow> int) \<Rightarrow> store \<Rightarrow> nat \<Rightarrow> (store \<times> nat) option" where
  "sortByMonthStore localeCompare s races =
     (case arrays s races of
        None \<Rightarrow> None
      | Some refs \<Rightarrow>
          if \<exists>r\<in>set refs. records s r = None then None
          else
            (let copy = nextRef s;
                 s1 = s\<lparr>arrays := (arrays s)(copy \<mapsto> refs), nextRef := Suc copy\<rparr>;
                 sorted = sortWith (\<lambda>a b. compareByMonth localeCompare
                                           (the (records s1 a)) (the (records s1 b))) refs;
                 s2 = s1\<lparr>arrays := (arrays s1)(copy \<mapsto> sorted)\<rparr>
             in Some (s2, copy)))"

subsection \<open>A concrete collation\<close>

text \<open>
  The comparison of strings code unit by code unit is a consistent comparator. It
  stands for \<open>localeCompare\<close> where an example is evaluated.
\<close>

fun compareCodes :: "nat list \<Rightarrow> nat list \<Rightarrow> int" where
  "compareCodes [] [] = 0"
| "compareCodes [] (y # ys) = -1"
| "compareCodes (x # xs) [] = 1"
| "compareCodes (x # xs) (y # ys) =
     (if x < y then -1 else if y < x then 1 else compareCodes xs ys)"

definition codeUnitCompare :: "string \<Rightarrow> string \<Rightarrow> int" where
  "codeUnitCompare a b = compareCodes (map of_char a) (map of_char b)"

section \<open>Facts about the array built-ins\<close>

lemma some_iff: "some p xs \<longleftrightarrow> (\<exists>x\<in>set xs. p x)"
  by (induction xs) auto

lemma findFirst_None_iff: "findFirst p xs = None \<longleftrightarrow> (\<forall>x\<in>set xs. \<not> p x)"
  by (induction xs) auto

lemma findFirst_Some_holds: "findFirst p xs = Some x \<Longrightarrow> p x"
  by (induction xs) (auto split: if_splits)

lemma indexOf_lower: "-1 \<le> indexOf ys x"
  by (induction ys) (auto simp: Let_def)

lemma indexOf_absent_iff: "indexOf ys x = -1 \<longleftrightarrow> x \<notin> set ys"
proof (induction ys)
  case Nil
  show ?case by simp
next
  case (Cons y ys)
  have "-1 \<le> indexOf ys x" by (rule indexOf_lower)
  with Cons show ?case by (auto simp: Let_def)
qed

lemma indexOf_present:
  "x \<in> set ys \<Longrightarrow> indexOf ys x = int (length (takeWhile (\<lambda>h. h \<noteq> x) ys))"
  by (induction ys) (auto simp: Let_def indexOf_absent_iff)

lemma findIdx_None_iff:
  "findIdx candidates headers = None \<longleftrightarrow> (\<forall>k\<in>set candidates. k \<notin> set headers)"
  by (simp add: findIdx_def findFirst_None_iff indexOf_absent_iff)

lemma findIdx_never_minus_one: "findIdx candidates headers \<noteq> Some (-1)"
proof
  assume "findIdx candidates headers = Some (-1)"
  then have "(-1::int) \<noteq> -1" unfolding findIdx_def by (rule findFirst_Some_holds)
  then show False by simp
qed

section \<open>Facts about the string built-ins\<close>

lemma dropWhile_hd: "dropWhile P xs \<noteq> [] \<Longrightarrow> \<not> P (hd (dropWhile P xs))"
  by (induction xs) auto

lemma dropWhile_fix: "xs = [] \<or> \<not> P (hd xs) \<Longrightarrow> dropWhile P xs = xs"
  by (cases xs) auto

lemma trim_Nil_iff: "trim s = [] \<longleftrightarrow> (\<forall>c\<in>set s. isWhiteSpace c)"
proof -
  have "trim s = [] \<longleftrightarrow> (\<forall>c\<in>set (dropWhile isWhiteSpace s). isWhiteSpace c)"
    by (simp add: trim_def)
  also have "\<dots> \<longleftrightarrow> dropWhile isWhiteSpace s = []"
  proof
    assume a: "\<forall>c\<in>set (dropWhile isWhiteSpace s). isWhiteSpace c"
    show "dropWhile isWhiteSpace s = []"
    proof (rule ccontr)
      assume ne: "dropWhile isWhiteSpace s \<noteq> []"
      then have "hd (dropWhile isWhiteSpace s) \<in> set (dropWhile isWhiteSpace s)" by simp
      with a have "isWhiteSpace (hd (dropWhile isWhiteSpace s))" by blast
      with dropWhile_hd [OF ne] show False by simp
    qed
  next
    assume "dropWhile isWhiteSpace s = []"
    then show "\<forall>c\<in>set (dropWhile isWhiteSpace s). isWhiteSpace c"
      by (simp only: list.set ball_empty)
  qed
  also have "\<dots> \<longleftrightarrow> (\<forall>c\<in>set s. isWhiteSpace c)"
    by (rule dropWhile_eq_Nil_conv)
  finally show ?thesis .
qed

lemma trim_idem: "trim (trim s) = trim s"
proof -
  define t where "t = dropWhile isWhiteSpace s"
  define u where "u = dropWhile isWhiteSpace (rev t)"
  have ts: "trim s = rev u" by (simp add: trim_def t_def u_def)
  have u_fix: "dropWhile isWhiteSpace u = u"
    unfolding u_def by (rule dropWhile_idem)
  have "dropWhile isWhiteSpace (rev u) = rev u"
  proof (cases "u = []")
    case True
    then show ?thesis by simp
  next
    case False
    have "rev t = takeWhile isWhiteSpace (rev t) @ u"
      by (simp add: u_def)
    then have "t = rev u @ rev (takeWhile isWhiteSpace (rev t))"
      by (metis rev_append rev_rev_ident)
    with False have hd_eq: "hd t = hd (rev u)" and tne: "t \<noteq> []"
      by (metis hd_append2 rev_is_Nil_conv, metis Nil_is_append_conv rev_is_Nil_conv)
    from tne have "\<not> isWhiteSpace (hd t)"
      unfolding t_def by (rule dropWhile_hd)
    with hd_eq show ?thesis by (simp add: dropWhile_fix)
  qed
  then have "rev (dropWhile isWhiteSpace (rev (dropWhile isWhiteSpace (rev u)))) = rev u"
    by (simp add: u_fix)
  then have "trim (rev u) = rev u" by (simp only: trim_def)
  then show ?thesis by (simp only: ts)
qed

lemma lowerChar_numeric_head:
  "c \<in> set ''0123456789+-.I'' \<Longrightarrow> lowerChar c \<in> set ''0123456789+-.i''"
proof -
  have "list_all (\<lambda>c. lowerChar c \<in> set ''0123456789+-.i'') ''0123456789+-.I''"
    by code_simp
  then show "c \<in> set ''0123456789+-.I'' \<Longrightarrow> lowerChar c \<in> set ''0123456789+-.i''"
    unfolding list_all_iff by blast
qed

lemma strUnsignedDecimalLiteral_head:
  "strUnsignedDecimalLiteral t \<Longrightarrow> t \<noteq> [] \<and> hd t \<in> set ''0123456789.I''"
  by (cases t)
    (auto simp: strUnsignedDecimalLiteral_def isDecimalDigit_def Let_def
          split: list.splits if_splits)

lemma strNumericLiteral_head:
  "strNumericLiteral t \<Longrightarrow> t \<noteq> [] \<and> hd t \<in> set ''0123456789+-.I''"
proof (cases t)
  case Nil
  assume "strNumericLiteral t"
  with Nil show ?thesis
    by (simp add: strNumericLiteral_def strDecimalLiteral_def nonDecimalIntegerLiteral_def)
next
  case (Cons c r)
  assume a: "strNumericLiteral t"
  show ?thesis
  proof (cases "c = CHR ''+'' \<or> c = CHR ''-''")
    case True
    with Cons show ?thesis by auto
  next
    case False
    from a consider "strDecimalLiteral t" | "nonDecimalIntegerLiteral t"
      by (auto simp: strNumericLiteral_def)
    then show ?thesis
    proof cases
      case 1
      with Cons False have "strUnsignedDecimalLiteral t" by (simp add: strDecimalLiteral_def)
      from strUnsignedDecimalLiteral_head [OF this] show ?thesis by auto
    next
      case 2
      with Cons show ?thesis by (auto simp: nonDecimalIntegerLiteral_def split: list.splits)
    qed
  qed
qed

text \<open>
  No synonym of the name or month column starts like a number, so a cell that matches
  one after trimming and lower-casing is never numeric.
\<close>

lemma candidate_head:
  "k \<in> set nameCandidates \<union> set monthCandidates \<Longrightarrow> k \<noteq> [] \<and> hd k \<in> set ''nrem''"
  by (auto simp: nameCandidates_def monthCandidates_def)

lemma candidate_cell_not_numeric:
  assumes "toLowerCase t \<in> set nameCandidates \<union> set monthCandidates"
  shows "t \<noteq> [] \<and> \<not> strNumericLiteral t"
proof -
  from candidate_head [OF assms]
  have k: "toLowerCase t \<noteq> []" "hd (toLowerCase t) \<in> set ''nrem''"
    by simp_all
  from k(1) have tne: "t \<noteq> []" by (auto simp: toLowerCase_def)
  then have hd_eq: "hd (toLowerCase t) = lowerChar (hd t)"
    by (simp add: toLowerCase_def hd_map)
  have "\<not> strNumericLiteral t"
  proof
    assume "strNumericLiteral t"
    then have "hd t \<in> set ''0123456789+-.I''" using strNumericLiteral_head by blast
    then have "lowerChar (hd t) \<in> set ''0123456789+-.i''" by (rule lowerChar_numeric_head)
    with k(2) hd_eq show False by auto
  qed
  with tne show ?thesis by simp
qed

lemma candidate_cell_header_like:
  assumes "toLowerCase (trim cell) \<in> set nameCandidates \<union> set monthCandidates"
  shows "trim cell \<noteq> [] \<and> numberIsNaN (trim cell)"
  using candidate_cell_not_numeric [OF assms] by (simp add: numberIsNaN_def trim_idem)

section \<open>Facts about ingestion\<close>

lemma looksLikeHeader_iff:
  "looksLikeHeader cells \<longleftrightarrow> (\<exists>cell\<in>set cells. trim cell \<noteq> [] \<and> numberIsNaN (trim cell))"
  by (auto simp: looksLikeHeader_def some_iff Let_def)

lemma columnMapping_headerless:
  "\<not> looksLikeHeader cells \<Longrightarrow> columnMapping cells = (Some 1, Some 2, Some 3, 0)"
  by (simp add: columnMapping_def)

lemma columnMapping_headered:
  "looksLikeHeader cells \<Longrightarrow>
   columnMapping cells =
     (findIdx nameCandidates (map (\<lambda>h. toLowerCase (trim h)) cells),
      findIdx monthCandidates (map (\<lambda>h. toLowerCase (trim h)) cells),
      findIdx websiteCandidates (map (\<lambda>h. toLowerCase (trim h)) cells),
      1)"
  by (simp add: columnMapping_def Let_def)

lemma columnMapping_never_minus_one:
  assumes "columnMapping cells = (ni, mi, wi, st)"
  shows "ni \<noteq> Some (-1) \<and> mi \<noteq> Some (-1)"
proof (cases "looksLikeHeader cells")
  case True
  from columnMapping_headered [OF True] assms findIdx_never_minus_one show ?thesis
    by (metis prod.inject)
next
  case False
  from columnMapping_headerless [OF False] assms show ?thesis by auto
qed

lemma parseCsvToRaces_no_lines: "csvLines text = [] \<Longrightarrow> parseCsvToRaces clock text = Inr []"
  by (simp add: parseCsvToRaces_def)

lemma parseCsvToRaces_lines:
  assumes "csvLines text \<noteq> []"
    and "columnMapping (split (CHR '','') (csvLines text ! 0)) = (ni, mi, wi, st)"
  shows "parseCsvToRaces clock text =
           (if ni = None \<or> mi = None then Inl SchemaError
            else Inr (filter (\<lambda>race. name race \<noteq> [] \<and> month race \<noteq> [])
                   (map (parseRow (the ni) (the mi) wi clock)
                      (zip (drop st (csvLines text))
                         [0 ..< length (drop st (csvLines text))]))))"
  using assms columnMapping_never_minus_one [OF assms(2)]
  by (simp add: parseCsvToRaces_def Let_def)

lemma name_parseRow:
  "name (parseRow ni mi wi clock (line, i)) = trim (cellOrEmpty (split (CHR '','') line) ni)"
  by (simp add: parseRow_def Let_def)

lemma month_parseRow:
  "month (parseRow ni mi wi clock (line, i)) = trim (cellOrEmpty (split (CHR '','') line) mi)"
  by (simp add: parseRow_def Let_def)

lemma website_parseRow_absent: "website (parseRow ni mi None clock p) = []"
  by (cases p) (simp add: parseRow_def Let_def)

lemma filter_parseRow:
  "filter (\<lambda>race. name race \<noteq> [] \<and> month race \<noteq> []) (map (parseRow ni mi wi clock) ps) =
   map (parseRow ni mi wi clock)
     (filter (\<lambda>(line, index). trim (cellOrEmpty (split (CHR '','') line) ni) \<noteq> [] \<and>
                               trim (cellOrEmpty (split (CHR '','') line) mi) \<noteq> []) ps)"
  by (induction ps) (auto simp: name_parseRow month_parseRow)

lemma filter_zip_fst:
  "length xs = length ys \<Longrightarrow>
   map fst (filter (\<lambda>(x, y). P x) (zip xs ys)) = filter P xs"
  by (induction xs ys rule: list_induct2) auto

lemma blank_iff_no_lines:
  "csvLines text = [] \<longleftrightarrow> (\<forall>line\<in>set (split (CHR 0x0A) text). trim line = [])"
proof -
  have cr: "isWhiteSpace (CHR 0x0D)" by (simp add: isWhiteSpace_def)
  have "trim (stripTrailingCR line) = [] \<longleftrightarrow> trim line = []" for line
  proof (cases "line \<noteq> [] \<and> last line = CHR 0x0D")
    case True
    then have "line = butlast line @ [CHR 0x0D]" by (metis append_butlast_last_id)
    then have "set line = insert (CHR 0x0D) (set (butlast line))"
      by (metis list.simps(15) rotate1.simps(2) set_rotate1)
    with True cr show ?thesis by (simp add: trim_Nil_iff stripTrailingCR_def)
  next
    case False
    then show ?thesis by (auto simp: stripTrailingCR_def)
  qed
  then show ?thesis by (auto simp: csvLines_def filter_empty_conv)
qed

lemma resolvable_header_looks_like_header:
  assumes "findIdx nameCandidates (map (\<lambda>h. toLowerCase (trim h)) cells) \<noteq> None"
  shows "looksLikeHeader cells"
proof -
  from assms obtain k where "k \<in> set nameCandidates"
    and "k \<in> set (map (\<lambda>h. toLowerCase (trim h)) cells)"
    by (auto simp: findIdx_None_iff)
  then obtain cell where c: "cell \<in> set cells" "toLowerCase (trim cell) \<in> set nameCandidates"
    by auto
  from c(2) have "trim cell \<noteq> [] \<and> numberIsNaN (trim cell)"
    by (intro candidate_cell_header_like) simp
  with c(1) show ?thesis unfolding looksLikeHeader_iff by blast
qed

lemma findIdx_Cons:
  "findIdx (k # ks) headers =
     (if k \<in> set headers then Some (indexOf headers k) else findIdx ks headers)"
  by (simp add: findIdx_def indexOf_absent_iff)

lemma takeWhile_neq_shorter:
  "k \<in> set headers \<Longrightarrow> length (takeWhile (\<lambda>h. h \<noteq> k) headers) < length headers"
  by (induction headers) auto

lemma indexOf_first_occurrence:
  assumes "k \<in> set headers"
  shows "\<exists>p<length headers. indexOf headers k = int p \<and> headers ! p = k \<and>
           (\<forall>q<p. headers ! q \<noteq> k)"
proof -
  let ?p = "length (takeWhile (\<lambda>h. h \<noteq> k) headers)"
  from assms have lt: "?p < length headers"
    by (rule takeWhile_neq_shorter)
  then have at_p: "headers ! ?p = k"
    using nth_length_takeWhile [of "\<lambda>h. h \<noteq> k" headers] by simp
  have before: "headers ! q \<noteq> k" if "q < ?p" for q
  proof -
    from that have "takeWhile (\<lambda>h. h \<noteq> k) headers ! q \<in> set (takeWhile (\<lambda>h. h \<noteq> k) headers)"
      by simp
    then have "takeWhile (\<lambda>h. h \<noteq> k) headers ! q \<noteq> k" by (rule set_takeWhileD [THEN conjunct2])
    with that show ?thesis by (simp add: takeWhile_nth)
  qed
  from lt at_p before indexOf_present [OF assms] show ?thesis by blast
qed

lemma findIdx_first_synonym:
  assumes "i < length candidates"
    and "candidates ! i \<in> set headers"
    and "\<forall>j<i. candidates ! j \<notin> set headers"
  shows "\<exists>p<length headers. findIdx candidates headers = Some (int p) \<and>
           headers ! p = candidates ! i \<and> (\<forall>q<p. headers ! q \<noteq> candidates ! i)"
  using assms
proof (induction candidates arbitrary: i)
  case Nil
  then show ?case by simp
next
  case (Cons k ks)
  show ?case
  proof (cases i)
    case 0
    with Cons.prems(2) have "k \<in> set headers" by simp
    from indexOf_first_occurrence [OF this] 0 \<open>k \<in> set headers\<close> show ?thesis
      by (simp add: findIdx_Cons)
  next
    case (Suc i')
    from Cons.prems(3) Suc have k: "k \<notin> set headers" by auto
    from Cons.prems Suc have "i' < length ks" "ks ! i' \<in> set headers"
      "\<forall>j<i'. ks ! j \<notin> set headers"
      by auto
    from Cons.IH [OF this] k Suc show ?thesis by (simp add: findIdx_Cons)
  qed
qed

section \<open>Ingestion: the claims\<close>

text \<open>
  C1. The spec's first end-to-end example, the single line
  \<^verbatim>\<open>1,Moggollon 100,September,https://x/m\<close>, is said to give one record. On the code the
  cell \<^verbatim>\<open>Moggollon 100\<close> is not a number, so the line is taken for a header row, no
  synonym of the name column is found in it, and the function throws. The same happens
  on the headerless sample of the source's own smoke test, which expects two records.
  This is the evaluation of the code at both inputs.
\<close>

theorem parseCsvToRaces_headerless_example_throws:
  "parseCsvToRaces clock ''1,Moggollon 100,September,https://x/m'' = Inl SchemaError \<and>
   looksLikeHeader (split (CHR '','') ''1,Moggollon 100,September,https://x/m'') \<and>
   parseCsvToRaces clock
     (''1,Moggollon 100,September,https://example.com/moggollon'' @ [CHR 0x0A] @
      ''2,Falling Water 100k,April,https://example.com/falling-water'' @ [CHR 0x0A])
     = Inl SchemaError"
  by code_simp

text \<open>
  C2. Layout classification of the first line. If every cell is, after trimming, empty
  or a number (\<open>Number\<close> of it is not NaN), the line is classified headerless: the
  header test is false and the positional layout with \<open>startIndex = 0\<close> is taken. If
  some cell is non-empty after trimming and not a number, the line is classified
  headered: the header test is true and \<open>startIndex = 1\<close>.
\<close>

theorem first_line_classification:
  "((\<forall>cell\<in>set cells. trim cell = [] \<or> \<not> numberIsNaN (trim cell)) \<longrightarrow>
      \<not> looksLikeHeader cells \<and> columnMapping cells = (Some 1, Some 2, Some 3, 0)) \<and>
   ((\<exists>cell\<in>set cells. trim cell \<noteq> [] \<and> numberIsNaN (trim cell)) \<longrightarrow>
      looksLikeHeader cells \<and> snd (snd (snd (columnMapping cells))) = 1)"
proof (intro conjI impI)
  assume "\<forall>cell\<in>set cells. trim cell = [] \<or> \<not> numberIsNaN (trim cell)"
  then show a: "\<not> looksLikeHeader cells" unfolding looksLikeHeader_iff by blast
  then show "columnMapping cells = (Some 1, Some 2, Some 3, 0)"
    by (rule columnMapping_headerless)
next
  assume "\<exists>cell\<in>set cells. trim cell \<noteq> [] \<and> numberIsNaN (trim cell)"
  then show b: "looksLikeHeader cells" unfolding looksLikeHeader_iff .
  then show "snd (snd (snd (columnMapping cells))) = 1"
    by (simp add: columnMapping_headered)
qed

theorem first_line_classification_witness:
  "\<not> looksLikeHeader [''1'', '' 2.5e3'', ''  '', ''0x1F'', ''-Infinity''] \<and>
   columnMapping [''1'', '' 2.5e3'', ''  '', ''0x1F'', ''-Infinity''] = (Some 1, Some 2, Some 3, 0) \<and>
   looksLikeHeader [''1'', ''Moggollon 100'', ''September''] \<and>
   snd (snd (snd (columnMapping [''1'', ''Moggollon 100'', ''September'']))) = 1"
proof -
  have h1: "\<forall>cell\<in>set [''1'', '' 2.5e3'', ''  '', ''0x1F'', ''-Infinity''].
              trim cell = [] \<or> \<not> numberIsNaN (trim cell)"
    by code_simp
  have h2: "\<exists>cell\<in>set [''1'', ''Moggollon 100'', ''September''].
              trim cell \<noteq> [] \<and> numberIsNaN (trim cell)"
    by code_simp
  from first_line_classification [of "[''1'', '' 2.5e3'', ''  '', ''0x1F'', ''-Infinity'']"]
    first_line_classification [of "[''1'', ''Moggollon 100'', ''September'']"] h1 h2
  show ?thesis by blast
qed

text \<open>
  C3. When the schema resolves (title and category indices present), the result holds
  exactly one record per data line (the lines from \<open>startIndex\<close> on) whose trimmed
  title cell and trimmed category cell are both non-empty, in the order of the lines:
  it is the list of \<open>parseRow\<close> of these lines, its titles and categories are the
  trimmed cells of these lines, its length is their number, and every record has a
  non-empty title and category.
\<close>

theorem one_record_per_valid_data_line:
  assumes "parseCsvToRaces clock text = Inr rs"
    and "csvLines text \<noteq> []"
    and "columnMapping (split (CHR '','') (csvLines text ! 0)) =
           (Some nameIdx, Some monthIdx, websiteIdx, startIndex)"
  shows "(let dataLines = drop startIndex (csvLines text);
              title = (\<lambda>line. trim (cellOrEmpty (split (CHR '','') line) nameIdx));
              category = (\<lambda>line. trim (cellOrEmpty (split (CHR '','') line) monthIdx));
              valid = (\<lambda>line. title line \<noteq> [] \<and> category line \<noteq> [])
          in rs = map (parseRow nameIdx monthIdx websiteIdx clock)
                    (filter (\<lambda>(line, index). valid line)
                       (zip dataLines [0 ..< length dataLines])) \<and>
             map name rs = map title (filter valid dataLines) \<and>
             map month rs = map category (filter valid dataLines) \<and>
             length rs = length (filter valid dataLines) \<and>
             (\<forall>r\<in>set rs. name r \<noteq> [] \<and> month r \<noteq> []))"
proof -
  define dataLines where "dataLines = drop startIndex (csvLines text)"
  define title where "title = (\<lambda>line. trim (cellOrEmpty (split (CHR '','') line) nameIdx))"
  define category where
    "category = (\<lambda>line. trim (cellOrEmpty (split (CHR '','') line) monthIdx))"
  define valid where "valid = (\<lambda>line. title line \<noteq> [] \<and> category line \<noteq> [])"
  define ps where
    "ps = filter (\<lambda>(line, index). valid line) (zip dataLines [0 ..< length dataLines])"
  from parseCsvToRaces_lines [OF assms(2,3), of clock] assms(1)
  have "rs = filter (\<lambda>race. name race \<noteq> [] \<and> month race \<noteq> [])
               (map (parseRow nameIdx monthIdx websiteIdx clock)
                  (zip dataLines [0 ..< length dataLines]))"
    by (simp add: dataLines_def)
  then have rs: "rs = map (parseRow nameIdx monthIdx websiteIdx clock) ps"
    by (simp add: filter_parseRow ps_def valid_def title_def category_def)
  have fst_ps: "map fst ps = filter valid dataLines"
    unfolding ps_def by (rule filter_zip_fst) simp
  have names: "map name rs = map title (map fst ps)"
    by (auto simp: rs name_parseRow title_def)
  have months: "map month rs = map category (map fst ps)"
    by (auto simp: rs month_parseRow category_def)
  have len: "length rs = length (filter valid dataLines)"
    using fst_ps by (metis length_map rs)
  have ne: "\<forall>r\<in>set rs. name r \<noteq> [] \<and> month r \<noteq> []"
    by (auto simp: rs ps_def name_parseRow month_parseRow valid_def title_def category_def)
  from rs names months len ne show ?thesis
    unfolding Let_def fst_ps
    by (simp add: ps_def dataLines_def title_def category_def valid_def)
qed

theorem one_record_per_valid_data_line_witness:
  "(let input = ''race,month,website'' @ [CHR 0x0A] @ ''UTMB, August ,https://utmb.world'' @
                [CHR 0x0D, CHR 0x0A] @ '',July,x'' @ [CHR 0x0A] @ ''Hardrock,July'';
        rs = [\<lparr>id = 0, name = ''UTMB'', month = ''August'', website = ''https://utmb.world'',
               registered = False, finishTime = []\<rparr>,
              \<lparr>id = 2, name = ''Hardrock'', month = ''July'', website = [],
               registered = False, finishTime = []\<rparr>];
        valid = (\<lambda>line. trim (cellOrEmpty (split (CHR '','') line) 0) \<noteq> [] \<and>
                        trim (cellOrEmpty (split (CHR '','') line) 1) \<noteq> [])
    in parseCsvToRaces (\<lambda>_. 0) input = Inr rs \<and>
       csvLines input = [''race,month,website'', ''UTMB, August ,https://utmb.world'',
                         '',July,x'', ''Hardrock,July''] \<and>
       columnMapping (split (CHR '','') (csvLines input ! 0)) = (Some 0, Some 1, Some 2, 1) \<and>
       filter valid (drop 1 (csvLines input)) =
         [''UTMB, August ,https://utmb.world'', ''Hardrock,July''] \<and>
       length rs = length (filter valid (drop 1 (csvLines input))))"
proof -
  define input where
    "input = ''race,month,website'' @ [CHR 0x0A] @ ''UTMB, August ,https://utmb.world'' @
             [CHR 0x0D, CHR 0x0A] @ '',July,x'' @ [CHR 0x0A] @ ''Hardrock,July''"
  define rs where
    "rs = [\<lparr>id = 0, name = ''UTMB'', month = ''August'', website = ''https://utmb.world'',
            registered = False, finishTime = []\<rparr>,
           \<lparr>id = 2, name = ''Hardrock'', month = ''July'', website = [],
            registered = False, finishTime = []\<rparr>]"
  define valid where
    "valid = (\<lambda>line. trim (cellOrEmpty (split (CHR '','') line) 0) \<noteq> [] \<and>
                     trim (cellOrEmpty (split (CHR '','') line) 1) \<noteq> [])"
  have h1: "parseCsvToRaces (\<lambda>_. 0) input = Inr rs"
    unfolding input_def rs_def by code_simp
  have l: "csvLines input = [''race,month,website'', ''UTMB, August ,https://utmb.world'',
                             '',July,x'', ''Hardrock,July'']"
    unfolding input_def by code_simp
  then have h2: "csvLines input \<noteq> []" by simp
  have h3: "columnMapping (split (CHR '','') (csvLines input ! 0)) = (Some 0, Some 1, Some 2, 1)"
    unfolding input_def by code_simp
  have f: "filter valid (drop 1 (csvLines input)) =
             [''UTMB, August ,https://utmb.world'', ''Hardrock,July'']"
    unfolding input_def valid_def by code_simp
  from one_record_per_valid_data_line [OF h1 h2 h3]
  have "length rs = length (filter valid (drop 1 (csvLines input)))"
    unfolding Let_def valid_def by (elim conjE)
  with h1 l h3 f show ?thesis
    unfolding Let_def input_def [symmetric] rs_def [symmetric] valid_def [symmetric]
    by simp
qed

text \<open>
  C4. When there is a non-blank line, so that the columns are resolved, ingestion
  throws if and only if the title index or the category index is absent. An absent
  website index never throws: with title and category present the call returns, and
  every record has the empty string as its website.
\<close>

theorem schema_error_iff_title_or_category_absent:
  assumes "csvLines text \<noteq> []"
    and "columnMapping (split (CHR '','') (csvLines text ! 0)) =
           (nameIdx, monthIdx, websiteIdx, startIndex)"
  shows "(parseCsvToRaces clock text = Inl SchemaError \<longleftrightarrow> nameIdx = None \<or> monthIdx = None) \<and>
         ((\<exists>rs. parseCsvToRaces clock text = Inr rs) \<longleftrightarrow> nameIdx \<noteq> None \<and> monthIdx \<noteq> None) \<and>
         (nameIdx \<noteq> None \<and> monthIdx \<noteq> None \<and> websiteIdx = None \<longrightarrow>
            (\<exists>rs. parseCsvToRaces clock text = Inr rs \<and> (\<forall>r\<in>set rs. website r = [])))"
proof -
  note p = parseCsvToRaces_lines [OF assms, of clock]
  have a: "parseCsvToRaces clock text = Inl SchemaError \<longleftrightarrow> nameIdx = None \<or> monthIdx = None"
    by (simp add: p)
  have b: "(\<exists>rs. parseCsvToRaces clock text = Inr rs) \<longleftrightarrow> nameIdx \<noteq> None \<and> monthIdx \<noteq> None"
    by (simp add: p)
  have c: "\<exists>rs. parseCsvToRaces clock text = Inr rs \<and> (\<forall>r\<in>set rs. website r = [])"
    if "nameIdx \<noteq> None \<and> monthIdx \<noteq> None \<and> websiteIdx = None"
    using that by (auto simp: p website_parseRow_absent)
  from a b c show ?thesis by blast
qed

theorem schema_error_iff_title_or_category_absent_witness:
  "parseCsvToRaces (\<lambda>_. 0) ''color,size,price'' = Inl SchemaError \<and>
   columnMapping (split (CHR '','') (csvLines ''color,size,price'' ! 0)) = (None, None, None, 1) \<and>
   columnMapping (split (CHR '','') (csvLines (''Race,Month'' @ [CHR 0x0A] @ ''UTMB,August,x'') ! 0))
     = (Some 0, Some 1, None, 1) \<and>
   (\<exists>rs. parseCsvToRaces (\<lambda>_. 0) (''Race,Month'' @ [CHR 0x0A] @ ''UTMB,August,x'') = Inr rs \<and>
         (\<forall>r\<in>set rs. website r = []))"
proof -
  have a1: "csvLines ''color,size,price'' \<noteq> []" by code_simp
  have a2: "columnMapping (split (CHR '','') (csvLines ''color,size,price'' ! 0)) =
              (None, None, None, 1)"
    by code_simp
  have b1: "csvLines (''Race,Month'' @ [CHR 0x0A] @ ''UTMB,August,x'') \<noteq> []" by code_simp
  have b2: "columnMapping
              (split (CHR '','') (csvLines (''Race,Month'' @ [CHR 0x0A] @ ''UTMB,August,x'') ! 0))
            = (Some 0, Some 1, None, 1)"
    by code_simp
  from schema_error_iff_title_or_category_absent [OF a1 a2, of "\<lambda>_. 0"]
    schema_error_iff_title_or_category_absent [OF b1 b2, of "\<lambda>_. 0"] a2 b2
  show ?thesis by simp
qed

text \<open>
  C8. A text with no non-blank line gives the empty list and does not throw: the
  function returns before the first line is looked at (on an empty array the header
  test would read \<open>lines[0]\<close>, which is \<open>undefined\<close>). A text whose only non-blank
  line is a header row in which a title synonym and a category synonym are found gives
  the empty list and does not throw.
\<close>

theorem blank_and_header_only_inputs_give_no_records:
  "((\<forall>line\<in>set (split (CHR 0x0A) text). trim line = []) \<longrightarrow>
      csvLines text = [] \<and> parseCsvToRaces clock text = Inr []) \<and>
   (csvLines text = [header] \<and>
    findIdx nameCandidates (map (\<lambda>h. toLowerCase (trim h)) (split (CHR '','') header)) \<noteq> None \<and>
    findIdx monthCandidates (map (\<lambda>h. toLowerCase (trim h)) (split (CHR '','') header)) \<noteq> None \<longrightarrow>
      parseCsvToRaces clock text = Inr [])"
proof (intro conjI impI)
  assume "\<forall>line\<in>set (split (CHR 0x0A) text). trim line = []"
  then show l: "csvLines text = []" by (simp add: blank_iff_no_lines)
  then show "parseCsvToRaces clock text = Inr []" by (rule parseCsvToRaces_no_lines)
next
  let ?hs = "map (\<lambda>h. toLowerCase (trim h)) (split (CHR '','') header)"
  assume a: "csvLines text = [header] \<and> findIdx nameCandidates ?hs \<noteq> None \<and>
             findIdx monthCandidates ?hs \<noteq> None"
  then have hdr: "looksLikeHeader (split (CHR '','') header)"
    by (intro resolvable_header_looks_like_header) simp
  from a have ne: "csvLines text \<noteq> []" and first: "csvLines text ! 0 = header" by simp_all
  from columnMapping_headered [OF hdr] first
  have cm: "columnMapping (split (CHR '','') (csvLines text ! 0)) =
              (findIdx nameCandidates ?hs, findIdx monthCandidates ?hs,
               findIdx websiteCandidates ?hs, 1)"
    by simp
  from parseCsvToRaces_lines [OF ne cm, of clock] a
  show "parseCsvToRaces clock text = Inr []" by simp
qed

theorem blank_and_header_only_inputs_give_no_records_witness:
  "csvLines [CHR '' '', CHR 0x0D, CHR 0x0A, CHR 0x0A, CHR 0x09] = [] \<and>
   parseCsvToRaces (\<lambda>_. 0) [CHR '' '', CHR 0x0D, CHR 0x0A, CHR 0x0A, CHR 0x09] = Inr [] \<and>
   csvLines ''race,month,website'' = [''race,month,website''] \<and>
   parseCsvToRaces (\<lambda>_. 0) ''race,month,website'' = Inr []"
proof -
  have h1: "\<forall>line\<in>set (split (CHR 0x0A) [CHR '' '', CHR 0x0D, CHR 0x0A, CHR 0x0A, CHR 0x09]).
              trim line = []"
    by code_simp
  have h2: "csvLines ''race,month,website'' = [''race,month,website'']" by code_simp
  have h3: "findIdx nameCandidates
              (map (\<lambda>h. toLowerCase (trim h)) (split (CHR '','') ''race,month,website'')) \<noteq> None"
    by code_simp
  have h4: "findIdx monthCandidates
              (map (\<lambda>h. toLowerCase (trim h)) (split (CHR '','') ''race,month,website'')) \<noteq> None"
    by code_simp
  from blank_and_header_only_inputs_give_no_records
         [of "[CHR '' '', CHR 0x0D, CHR 0x0A, CHR 0x0A, CHR 0x09]" "\<lambda>_. 0" "''race,month,website''"]
       blank_and_header_only_inputs_give_no_records
         [of "''race,month,website''" "\<lambda>_. 0" "''race,month,website''"]
       h1 h2 h3 h4
  show ?thesis by blast
qed

text \<open>
  C9. When every cell of the first line is empty or a number after trimming, the
  positional indices 1 (title), 2 (category) and 3 (website) are assigned with
  \<open>startIndex = 0\<close>, and ingestion returns a list: it does not throw.
\<close>

theorem headerless_input_never_throws:
  assumes "csvLines text \<noteq> []"
    and "\<forall>cell\<in>set (split (CHR '','') (csvLines text ! 0)).
           trim cell = [] \<or> \<not> numberIsNaN (trim cell)"
  shows "columnMapping (split (CHR '','') (csvLines text ! 0)) = (Some 1, Some 2, Some 3, 0) \<and>
         (\<exists>rs. parseCsvToRaces clock text = Inr rs) \<and>
         parseCsvToRaces clock text \<noteq> Inl SchemaError"
proof -
  from assms(2) have "\<not> looksLikeHeader (split (CHR '','') (csvLines text ! 0))"
    unfolding looksLikeHeader_iff by blast
  then have cm: "columnMapping (split (CHR '','') (csvLines text ! 0)) =
                   (Some 1, Some 2, Some 3, 0)"
    by (rule columnMapping_headerless)
  from parseCsvToRaces_lines [OF assms(1) cm, of clock] cm show ?thesis by simp
qed

theorem headerless_input_never_throws_witness:
  "columnMapping (split (CHR '','') (csvLines (''1,2024,9, 0x1F'' @ [CHR 0x0A] @ ''2,x,y'') ! 0))
     = (Some 1, Some 2, Some 3, 0) \<and>
   parseCsvToRaces (\<lambda>_. 0) (''1,2024,9, 0x1F'' @ [CHR 0x0A] @ ''2,x,y'') =
     Inr [\<lparr>id = 0, name = ''2024'', month = ''9'', website = ''0x1F'',
           registered = False, finishTime = []\<rparr>,
          \<lparr>id = 1, name = ''x'', month = ''y'', website = [],
           registered = False, finishTime = []\<rparr>]"
proof -
  have h1: "csvLines (''1,2024,9, 0x1F'' @ [CHR 0x0A] @ ''2,x,y'') \<noteq> []" by code_simp
  have h2: "\<forall>cell\<in>set (split (CHR '','')
                         (csvLines (''1,2024,9, 0x1F'' @ [CHR 0x0A] @ ''2,x,y'') ! 0)).
              trim cell = [] \<or> \<not> numberIsNaN (trim cell)"
    by code_simp
  have r: "parseCsvToRaces (\<lambda>_. 0) (''1,2024,9, 0x1F'' @ [CHR 0x0A] @ ''2,x,y'') =
     Inr [\<lparr>id = 0, name = ''2024'', month = ''9'', website = ''0x1F'',
           registered = False, finishTime = []\<rparr>,
          \<lparr>id = 1, name = ''x'', month = ''y'', website = [],
           registered = False, finishTime = []\<rparr>]"
    by code_simp
  from headerless_input_never_throws [OF h1 h2, of "\<lambda>_. 0"] r show ?thesis by simp
qed

text \<open>
  C5. For a headered first line, with \<open>headers\<close> the trimmed, lower-cased cells, each of
  the three indices is resolved from its own synonym list by priority: if no synonym of
  the list is a header the index is absent; otherwise, for the first synonym of the list
  (in list order) that is a header, the index is the position of the first header cell
  equal to that synonym, whatever the columns of later synonyms are.
\<close>

theorem header_indices_resolved_by_synonym_priority:
  assumes "looksLikeHeader cells"
  shows "(let headers = map (\<lambda>h. toLowerCase (trim h)) cells;
              resolved = (\<lambda>candidates idx.
                ((\<forall>k\<in>set candidates. k \<notin> set headers) \<longrightarrow> idx = None) \<and>
                (\<forall>i<length candidates.
                   candidates ! i \<in> set headers \<and> (\<forall>j<i. candidates ! j \<notin> set headers) \<longrightarrow>
                   (\<exists>p<length headers. idx = Some (int p) \<and> headers ! p = candidates ! i \<and>
                      (\<forall>q<p. headers ! q \<noteq> candidates ! i))))
          in \<exists>nameIdx monthIdx websiteIdx.
               columnMapping cells = (nameIdx, monthIdx, websiteIdx, 1) \<and>
               resolved nameCandidates nameIdx \<and>
               resolved monthCandidates monthIdx \<and>
               resolved websiteCandidates websiteIdx)"
proof -
  define headers where "headers = map (\<lambda>h. toLowerCase (trim h)) cells"
  have r: "((\<forall>k\<in>set candidates. k \<notin> set headers) \<longrightarrow> findIdx candidates headers = None) \<and>
           (\<forall>i<length candidates.
              candidates ! i \<in> set headers \<and> (\<forall>j<i. candidates ! j \<notin> set headers) \<longrightarrow>
              (\<exists>p<length headers. findIdx candidates headers = Some (int p) \<and>
                 headers ! p = candidates ! i \<and> (\<forall>q<p. headers ! q \<noteq> candidates ! i)))"
    for candidates
    using findIdx_first_synonym [of _ candidates headers]
    by (simp add: findIdx_None_iff)
  from columnMapping_headered [OF assms]
  have "columnMapping cells =
          (findIdx nameCandidates headers, findIdx monthCandidates headers,
           findIdx websiteCandidates headers, 1)"
    by (simp add: headers_def)
  with r [of nameCandidates] r [of monthCandidates] r [of websiteCandidates]
  show ?thesis
    unfolding Let_def headers_def [symmetric] by blast
qed

theorem header_indices_resolved_by_synonym_priority_witness:
  "looksLikeHeader [''Race'', '' NAME '', ''URL'', ''link'', ''Month Held''] \<and>
   (\<exists>p. fst (columnMapping [''Race'', '' NAME '', ''URL'', ''link'', ''Month Held'']) = Some (int p) \<and>
        map (\<lambda>h. toLowerCase (trim h)) [''Race'', '' NAME '', ''URL'', ''link'', ''Month Held''] ! p
          = ''name'') \<and>
   columnMapping [''Race'', '' NAME '', ''URL'', ''link'', ''Month Held''] =
     (Some 1, Some 4, Some 2, 1)"
proof -
  define cells where "cells = [''Race'', '' NAME '', ''URL'', ''link'', ''Month Held'']"
  define headers where "headers = map (\<lambda>h. toLowerCase (trim h)) cells"
  have h: "looksLikeHeader cells" unfolding cells_def by code_simp
  have cm: "columnMapping cells = (Some 1, Some 4, Some 2, 1)" unfolding cells_def by code_simp
  have first: "0 < length nameCandidates" "nameCandidates ! 0 = ''name''"
    by (simp_all add: nameCandidates_def)
  have present: "''name'' \<in> set headers" unfolding headers_def cells_def by code_simp
  from header_indices_resolved_by_synonym_priority [OF h]
  have "\<exists>nameIdx monthIdx websiteIdx.
          columnMapping cells = (nameIdx, monthIdx, websiteIdx, 1) \<and>
          (\<forall>i<length nameCandidates.
             nameCandidates ! i \<in> set headers \<and> (\<forall>j<i. nameCandidates ! j \<notin> set headers) \<longrightarrow>
             (\<exists>p<length headers. nameIdx = Some (int p) \<and> headers ! p = nameCandidates ! i \<and>
                (\<forall>q<p. headers ! q \<noteq> nameCandidates ! i)))"
    unfolding Let_def headers_def [symmetric] by (elim exE conjE) (intro exI conjI)
  then obtain nameIdx monthIdx websiteIdx where
    m: "columnMapping cells = (nameIdx, monthIdx, websiteIdx, 1)" and
    n: "\<forall>i<length nameCandidates.
          nameCandidates ! i \<in> set headers \<and> (\<forall>j<i. nameCandidates ! j \<notin> set headers) \<longrightarrow>
          (\<exists>p<length headers. nameIdx = Some (int p) \<and> headers ! p = nameCandidates ! i \<and>
             (\<forall>q<p. headers ! q \<noteq> nameCandidates ! i))"
    by (elim exE conjE)
  from n have "0 < length nameCandidates \<longrightarrow>
          (nameCandidates ! 0 \<in> set headers \<and> (\<forall>j<0. nameCandidates ! j \<notin> set headers) \<longrightarrow>
          (\<exists>p<length headers. nameIdx = Some (int p) \<and> headers ! p = nameCandidates ! 0 \<and>
             (\<forall>q<p. headers ! q \<noteq> nameCandidates ! 0)))"
    by (rule spec)
  then have "nameCandidates ! 0 \<in> set headers \<and> (\<forall>j<0. nameCandidates ! j \<notin> set headers) \<longrightarrow>
          (\<exists>p<length headers. nameIdx = Some (int p) \<and> headers ! p = nameCandidates ! 0 \<and>
             (\<forall>q<p. headers ! q \<noteq> nameCandidates ! 0))"
    using first(1) by (rule mp)
  with first(2) present obtain p where "nameIdx = Some (int p)" "headers ! p = ''name''"
    by auto
  with m have e: "\<exists>p. fst (columnMapping cells) = Some (int p) \<and> headers ! p = ''name''"
    by auto
  from h e cm show ?thesis unfolding cells_def headers_def by (intro conjI)
qed

section \<open>Facts about ordering\<close>

lemma orEmpty_id: "orEmpty s = s"
  by (simp add: orEmpty_def)

lemma set_insertSorted: "set (insertSorted cmp x ys) = insert x (set ys)"
  by (induction ys) auto

lemma mset_insertSorted: "mset (insertSorted cmp x ys) = add_mset x (mset ys)"
  by (induction ys) auto

lemma mset_sortWith: "mset (sortWith cmp xs) = mset xs"
  by (induction xs) (auto simp: mset_insertSorted)

lemma consistentComparator_total:
  "consistentComparator cmp \<Longrightarrow> cmp a b \<le> 0 \<or> cmp b a \<le> 0"
  unfolding consistentComparator_def
  by (metis linorder_not_less order_less_imp_le)

lemma consistentComparator_trans:
  "consistentComparator cmp \<Longrightarrow> cmp a b \<le> 0 \<Longrightarrow> cmp b c \<le> 0 \<Longrightarrow> cmp a c \<le> 0"
  unfolding consistentComparator_def by blast

lemma sorted_insertSorted:
  assumes "consistentComparator cmp"
    and "sorted_wrt (\<lambda>a b. cmp a b \<le> 0) ys"
  shows "sorted_wrt (\<lambda>a b. cmp a b \<le> 0) (insertSorted cmp x ys)"
  using assms(2)
proof (induction ys)
  case Nil
  then show ?case by simp
next
  case (Cons y ys)
  show ?case
  proof (cases "cmp x y \<le> 0")
    case True
    have "cmp x z \<le> 0" if "z \<in> set ys" for z
    proof -
      from Cons.prems that have "cmp y z \<le> 0" by simp
      with True show ?thesis by (rule consistentComparator_trans [OF assms(1)])
    qed
    with True Cons.prems show ?thesis by simp
  next
    case False
    with consistentComparator_total [OF assms(1), of x y] have "cmp y x \<le> 0" by simp
    with False Cons show ?thesis by (auto simp: set_insertSorted)
  qed
qed

lemma sorted_sortWith:
  "consistentComparator cmp \<Longrightarrow> sorted_wrt (\<lambda>a b. cmp a b \<le> 0) (sortWith cmp xs)"
  by (induction xs) (auto simp: sorted_insertSorted)

lemma insertSorted_map:
  "map f (insertSorted (\<lambda>a b. cmp (f a) (f b)) x ys) = insertSorted cmp (f x) (map f ys)"
  by (induction ys) auto

lemma sortWith_map:
  "map f (sortWith (\<lambda>a b. cmp (f a) (f b)) xs) = sortWith cmp (map f xs)"
  by (induction xs) (auto simp: insertSorted_map)

lemma compareByMonth_rank:
  "compareByMonth localeCompare a b =
     (if monthRank a \<noteq> monthRank b then monthRank a - monthRank b
      else localeCompare (orEmpty (name a)) (orEmpty (name b)))"
  by (simp add: compareByMonth_def monthRank_def Let_def)

lemma compareByMonth_le_iff:
  "compareByMonth localeCompare a b \<le> 0 \<longleftrightarrow>
     monthRank a < monthRank b \<or>
     (monthRank a = monthRank b \<and> localeCompare (orEmpty (name a)) (orEmpty (name b)) \<le> 0)"
  by (auto simp: compareByMonth_rank)

lemma consistent_compareByMonth:
  assumes "consistentComparator localeCompare"
  shows "consistentComparator (compareByMonth localeCompare)"
proof -
  have anti: "(compareByMonth localeCompare a b < 0) = (0 < compareByMonth localeCompare b a)"
    for a b
    using assms unfolding consistentComparator_def by (auto simp: compareByMonth_rank)
  have trans: "compareByMonth localeCompare a c \<le> 0"
    if "compareByMonth localeCompare a b \<le> 0" "compareByMonth localeCompare b c \<le> 0"
    for a b c
    using that consistentComparator_trans [OF assms]
    unfolding compareByMonth_le_iff by (metis less_trans)
  from anti trans show ?thesis unfolding consistentComparator_def by blast
qed

lemma sorted_sortByMonth:
  "consistentComparator localeCompare \<Longrightarrow>
   sorted_wrt (\<lambda>a b. compareByMonth localeCompare a b \<le> 0) (sortByMonth localeCompare races)"
  unfolding sortByMonth_def by (intro sorted_sortWith consistent_compareByMonth)

lemma indexOf_bounds: "x \<in> set ys \<Longrightarrow> 0 \<le> indexOf ys x \<and> indexOf ys x < int (length ys)"
  using indexOf_first_occurrence [of x ys] by auto

lemma monthRank_unknown:
  "trim (orEmpty (month r)) \<notin> set monthOrder \<Longrightarrow> monthRank r = MAX_SAFE_INTEGER"
  by (simp add: monthRank_def Let_def indexOf_absent_iff)

lemma monthRank_known:
  assumes "trim (orEmpty (month r)) \<in> set monthOrder"
  shows "0 \<le> monthRank r \<and> monthRank r \<le> 11"
proof -
  have "length monthOrder = 12" by (simp add: monthOrder_def)
  with indexOf_bounds [OF assms] assms show ?thesis
    by (simp add: monthRank_def Let_def indexOf_absent_iff)
qed

lemma partitioned_by_sorted:
  "sorted_wrt (\<lambda>a b. P b \<longrightarrow> P a) xs \<Longrightarrow> xs = filter P xs @ filter (\<lambda>x. \<not> P x) xs"
proof (induction xs)
  case Nil
  then show ?case by simp
next
  case (Cons x xs)
  show ?case
  proof (cases "P x")
    case True
    with Cons show ?thesis by simp
  next
    case False
    with Cons.prems have "\<forall>y\<in>set xs. \<not> P y" by auto
    then have "filter P xs = []" "filter (\<lambda>x. \<not> P x) xs = xs" by (simp_all add: filter_empty_conv)
    with False show ?thesis by simp
  qed
qed

lemma compareCodes_anti: "(compareCodes a b < 0) = (0 < compareCodes b a)"
  by (induction a b rule: compareCodes.induct) auto

lemma compareCodes_trans:
  "compareCodes a b \<le> 0 \<Longrightarrow> compareCodes b c \<le> 0 \<Longrightarrow> compareCodes a c \<le> 0"
proof (induction a b arbitrary: c rule: compareCodes.induct)
  case 1
  then show ?case by simp
next
  case (2 y ys)
  then show ?case by (cases c) auto
next
  case (3 x xs)
  then show ?case by simp
next
  case (4 x xs y ys)
  show ?case
  proof (cases c)
    case Nil
    with 4 show ?thesis by (simp split: if_splits)
  next
    case (Cons z zs)
    consider "x < y" | "y < x" | "x = y" by (rule linorder_cases)
    then show ?thesis
    proof cases
      case 1
      with 4 Cons show ?thesis by (simp split: if_splits)
    next
      case 2
      with 4 Cons show ?thesis by (simp split: if_splits)
    next
      case 3
      with 4 Cons show ?thesis by (auto split: if_splits)
    qed
  qed
qed

lemma consistent_codeUnitCompare: "consistentComparator codeUnitCompare"
  unfolding consistentComparator_def codeUnitCompare_def
proof (intro conjI allI impI)
  fix a b :: string
  show "(compareCodes (map of_char a) (map of_char b) < 0) =
        (0 < compareCodes (map of_char b) (map of_char a))"
    by (rule compareCodes_anti)
next
  fix a b c :: string
  assume "compareCodes (map of_char a) (map of_char b) \<le> 0 \<and>
          compareCodes (map of_char b) (map of_char c) \<le> 0"
  then show "compareCodes (map of_char a) (map of_char c) \<le> 0"
    using compareCodes_trans by blast
qed

section \<open>Ordering: the claims\<close>

lemma length_sortByMonth: "length (sortByMonth localeCompare races) = length races"
  unfolding sortByMonth_def by (metis mset_sortWith size_mset)

text \<open>
  C6. For a consistent \<open>localeCompare\<close>, every adjacent pair \<open>r1\<close>, \<open>r2\<close> of the sorted
  batch has \<open>rank r1 \<le> rank r2\<close>, and for equal ranks the title of \<open>r1\<close> is not after
  the title of \<open>r2\<close> in the collation (\<open>localeCompare\<close> of the two is at most 0). The rank
  is the position of the trimmed month among the twelve month names.
\<close>

theorem sortByMonth_adjacent_pairs_ordered:
  assumes "consistentComparator localeCompare"
    and "Suc i < length races"
  shows "(let sorted = sortByMonth localeCompare races;
              r1 = sorted ! i;
              r2 = sorted ! Suc i
          in length sorted = length races \<and>
             monthRank r1 \<le> monthRank r2 \<and>
             (monthRank r1 = monthRank r2 \<longrightarrow>
                localeCompare (orEmpty (name r1)) (orEmpty (name r2)) \<le> 0))"
proof -
  let ?s = "sortByMonth localeCompare races"
  from assms(2) have "i < Suc i" "Suc i < length ?s" by (simp_all add: length_sortByMonth)
  with sorted_sortByMonth [OF assms(1), of races]
  have "compareByMonth localeCompare (?s ! i) (?s ! Suc i) \<le> 0"
    by (simp only: sorted_wrt_iff_nth_less)
  then show ?thesis
    unfolding Let_def compareByMonth_le_iff by (auto simp: length_sortByMonth)
qed

theorem sortByMonth_adjacent_pairs_ordered_witness:
  "(let races =
      [\<lparr>id = 1, name = ''Black Mountain 100'', month = ''March'', website = [],
        registered = True, finishTime = ''26:15:42''\<rparr>,
       \<lparr>id = 2, name = ''UTMB'', month = ''August'', website = [],
        registered = False, finishTime = []\<rparr>,
       \<lparr>id = 3, name = ''Crazy Mountain 100'', month = ''July'', website = [],
        registered = False, finishTime = []\<rparr>];
        sorted = sortByMonth codeUnitCompare races
    in consistentComparator codeUnitCompare \<and>
       map name sorted = [''Black Mountain 100'', ''Crazy Mountain 100'', ''UTMB''] \<and>
       map monthRank sorted = [2, 6, 7] \<and>
       monthRank (sorted ! 1) \<le> monthRank (sorted ! Suc 1))"
proof -
  define races where "races =
      [\<lparr>id = 1, name = ''Black Mountain 100'', month = ''March'', website = [],
        registered = True, finishTime = ''26:15:42''\<rparr>,
       \<lparr>id = 2, name = ''UTMB'', month = ''August'', website = [],
        registered = False, finishTime = []\<rparr>,
       \<lparr>id = 3, name = ''Crazy Mountain 100'', month = ''July'', website = [],
        registered = False, finishTime = []\<rparr>]"
  have len: "Suc 1 < length races" by (simp add: races_def)
  have n: "map name (sortByMonth codeUnitCompare races) =
             [''Black Mountain 100'', ''Crazy Mountain 100'', ''UTMB'']"
    unfolding races_def by code_simp
  have r: "map monthRank (sortByMonth codeUnitCompare races) = [2, 6, 7]"
    unfolding races_def by code_simp
  from sortByMonth_adjacent_pairs_ordered [OF consistent_codeUnitCompare len]
  have "monthRank (sortByMonth codeUnitCompare races ! 1) \<le>
        monthRank (sortByMonth codeUnitCompare races ! Suc 1)"
    unfolding Let_def by (elim conjE)
  with consistent_codeUnitCompare n r show ?thesis
    unfolding Let_def races_def [symmetric] by (intro conjI)
qed

text \<open>
  C7. A record whose trimmed month is not exactly one of the twelve month names has the
  rank \<open>MAX_SAFE_INTEGER\<close>, above the ranks 0 to 11 of the twelve names. In a batch
  sorted with a consistent \<open>localeCompare\<close> the records with a known month come first
  and the others follow as one block: no record of unknown month stands before a
  record of known month.
\<close>

theorem unknown_months_sort_last:
  assumes "consistentComparator localeCompare"
  shows "(\<forall>r. trim (orEmpty (month r)) \<notin> set monthOrder \<longrightarrow>
            monthRank r = MAX_SAFE_INTEGER \<and> 11 < monthRank r \<and>
            (\<forall>k\<in>set monthOrder. indexOf monthOrder k < monthRank r) \<and>
            (\<forall>r'. trim (orEmpty (month r')) \<in> set monthOrder \<longrightarrow> monthRank r' < monthRank r)) \<and>
         (let sorted = sortByMonth localeCompare races;
              known = (\<lambda>r. trim (orEmpty (month r)) \<in> set monthOrder)
          in sorted = filter known sorted @ filter (\<lambda>r. \<not> known r) sorted \<and>
             (\<forall>i j. i < length sorted \<and> j < length sorted \<and>
                    known (sorted ! i) \<and> \<not> known (sorted ! j) \<longrightarrow> i < j))"
proof -
  define known where "known = (\<lambda>r::race. trim (orEmpty (month r)) \<in> set monthOrder)"
  define sorted where "sorted = sortByMonth localeCompare races"
  have max: "11 < MAX_SAFE_INTEGER" by (simp add: MAX_SAFE_INTEGER_def)
  have len: "int (length monthOrder) = 12" by (simp add: monthOrder_def)
  have ranks: "monthRank r = MAX_SAFE_INTEGER \<and> 11 < monthRank r \<and>
               (\<forall>k\<in>set monthOrder. indexOf monthOrder k < monthRank r) \<and>
               (\<forall>r'. known r' \<longrightarrow> monthRank r' < monthRank r)"
    if "\<not> known r" for r
  proof -
    from that have m: "monthRank r = MAX_SAFE_INTEGER"
      unfolding known_def by (rule monthRank_unknown)
    have "indexOf monthOrder k < monthRank r" if "k \<in> set monthOrder" for k
      using indexOf_bounds [OF that] len m max by simp
    moreover have "monthRank r' < monthRank r" if "known r'" for r'
      using monthRank_known [of r'] that m max unfolding known_def by simp
    ultimately show ?thesis using m max by simp
  qed
  have le: "monthRank a \<le> monthRank b" if "compareByMonth localeCompare a b \<le> 0" for a b
    using that unfolding compareByMonth_le_iff by auto
  have s: "sorted_wrt (\<lambda>a b. compareByMonth localeCompare a b \<le> 0) sorted"
    unfolding sorted_def by (rule sorted_sortByMonth [OF assms])
  have kb: "known a" if "compareByMonth localeCompare a b \<le> 0" "known b" for a b
  proof (rule ccontr)
    assume "\<not> known a"
    from ranks [OF this] that(2) have "monthRank b < monthRank a" by blast
    with le [OF that(1)] show False by simp
  qed
  have "sorted_wrt (\<lambda>a b. known b \<longrightarrow> known a) sorted"
    by (rule sorted_wrt_mono_rel [OF _ s]) (blast intro: kb)
  then have block: "sorted = filter known sorted @ filter (\<lambda>r. \<not> known r) sorted"
    by (rule partitioned_by_sorted)
  have order: "i < j"
    if "i < length sorted \<and> j < length sorted \<and> known (sorted ! i) \<and> \<not> known (sorted ! j)"
    for i j
  proof (rule ccontr)
    assume "\<not> i < j"
    moreover from that have "i \<noteq> j" by auto
    ultimately have "j < i" by simp
    with s that have "compareByMonth localeCompare (sorted ! j) (sorted ! i) \<le> 0"
      by (simp only: sorted_wrt_iff_nth_less)
    from kb [OF this] that show False by simp
  qed
  have part1: "\<forall>r. trim (orEmpty (month r)) \<notin> set monthOrder \<longrightarrow>
            monthRank r = MAX_SAFE_INTEGER \<and> 11 < monthRank r \<and>
            (\<forall>k\<in>set monthOrder. indexOf monthOrder k < monthRank r) \<and>
            (\<forall>r'. trim (orEmpty (month r')) \<in> set monthOrder \<longrightarrow> monthRank r' < monthRank r)"
    using ranks unfolding known_def by blast
  have part2: "sorted = filter known sorted @ filter (\<lambda>r. \<not> known r) sorted \<and>
               (\<forall>i j. i < length sorted \<and> j < length sorted \<and>
                      known (sorted ! i) \<and> \<not> known (sorted ! j) \<longrightarrow> i < j)"
    using block order by blast
  show ?thesis
    unfolding Let_def using part1 part2 [unfolded known_def sorted_def] by (rule conjI)
qed

theorem unknown_months_sort_last_witness:
  "(let races =
      [\<lparr>id = 1, name = ''Alpha'', month = ''september'', website = [],
        registered = False, finishTime = []\<rparr>,
       \<lparr>id = 2, name = ''UTMB'', month = '' August '', website = [],
        registered = False, finishTime = []\<rparr>,
       \<lparr>id = 3, name = ''Zulu'', month = [], website = [],
        registered = False, finishTime = []\<rparr>,
       \<lparr>id = 4, name = ''Hardrock'', month = ''July'', website = [],
        registered = False, finishTime = []\<rparr>];
        sorted = sortByMonth codeUnitCompare races;
        known = (\<lambda>r. trim (orEmpty (month r)) \<in> set monthOrder)
    in map name sorted = [''Hardrock'', ''UTMB'', ''Alpha'', ''Zulu''] \<and>
       map known sorted = [True, True, False, False] \<and>
       map monthRank sorted = [6, 7, 9007199254740991, 9007199254740991] \<and>
       sorted = filter known sorted @ filter (\<lambda>r. \<not> known r) sorted)"
proof -
  define races where "races =
      [\<lparr>id = 1, name = ''Alpha'', month = ''september'', website = [],
        registered = False, finishTime = []\<rparr>,
       \<lparr>id = 2, name = ''UTMB'', month = '' August '', website = [],
        registered = False, finishTime = []\<rparr>,
       \<lparr>id = 3, name = ''Zulu'', month = [], website = [],
        registered = False, finishTime = []\<rparr>,
       \<lparr>id = 4, name = ''Hardrock'', month = ''July'', website = [],
        registered = False, finishTime = []\<rparr>]"
  have n: "map name (sortByMonth codeUnitCompare races) =
             [''Hardrock'', ''UTMB'', ''Alpha'', ''Zulu'']"
    unfolding races_def by code_simp
  have k: "map (\<lambda>r. trim (orEmpty (month r)) \<in> set monthOrder)
             (sortByMonth codeUnitCompare races) = [True, True, False, False]"
    unfolding races_def by code_simp
  have r: "map monthRank (sortByMonth codeUnitCompare races) =
             [6, 7, 9007199254740991, 9007199254740991]"
    unfolding races_def by code_simp
  from unknown_months_sort_last [OF consistent_codeUnitCompare, of races]
  have "sortByMonth codeUnitCompare races =
          filter (\<lambda>r. trim (orEmpty (month r)) \<in> set monthOrder)
            (sortByMonth codeUnitCompare races) @
          filter (\<lambda>r. \<not> trim (orEmpty (month r)) \<in> set monthOrder)
            (sortByMonth codeUnitCompare races)"
    unfolding Let_def by (elim conjE)
  with n k r show ?thesis
    unfolding Let_def races_def [symmetric] by (intro conjI)
qed

text \<open>
  C10. \<open>sortByMonth\<close> leaves its argument and the records untouched and returns a new
  array that is a permutation of the argument. On the store: the call succeeds on an
  array of records, the returned reference is new (unused before, hence not the
  argument's), the argument array and every other array are as before, the records are
  as before, and the new array holds the same references with the same multiplicities;
  read through the store it is \<open>sortByMonth\<close> of the argument's records.
\<close>

theorem sortByMonthStore_leaves_input_and_returns_permutation:
  assumes "arrays s races = Some refs"
    and "\<forall>r\<in>set refs. records s r \<noteq> None"
    and "\<forall>r. nextRef s \<le> r \<longrightarrow> arrays s r = None"
  shows "\<exists>s' out sorted.
           sortByMonthStore localeCompare s races = Some (s', out) \<and>
           out \<noteq> races \<and> arrays s out = None \<and>
           arrays s' races = Some refs \<and>
           (\<forall>r. r \<noteq> out \<longrightarrow> arrays s' r = arrays s r) \<and>
           records s' = records s \<and>
           arrays s' out = Some sorted \<and>
           mset sorted = mset refs \<and>
           map (\<lambda>r. the (records s' r)) sorted =
             sortByMonth localeCompare (map (\<lambda>r. the (records s r)) refs) \<and>
           mset (sortByMonth localeCompare (map (\<lambda>r. the (records s r)) refs)) =
             mset (map (\<lambda>r. the (records s r)) refs)"
proof -
  define out where "out = nextRef s"
  define sorted where
    "sorted = sortWith (\<lambda>a b. compareByMonth localeCompare
                               (the (records s a)) (the (records s b))) refs"
  define s' where
    "s' = s\<lparr>arrays := (arrays s)(out \<mapsto> sorted), nextRef := Suc out\<rparr>"
  from assms(2) have ok: "\<not> (\<exists>r\<in>set refs. records s r = None)" by blast
  have call: "sortByMonthStore localeCompare s races = Some (s', out)"
    using assms(1) ok
    by (simp add: sortByMonthStore_def Let_def s'_def sorted_def out_def)
  from assms(3) have new: "arrays s out = None" by (simp add: out_def)
  with assms(1) have diff: "out \<noteq> races" by auto
  have same: "arrays s' races = Some refs" using diff assms(1) by (simp add: s'_def)
  have frame: "\<forall>r. r \<noteq> out \<longrightarrow> arrays s' r = arrays s r" by (simp add: s'_def)
  have recs: "records s' = records s" by (simp add: s'_def)
  have res: "arrays s' out = Some sorted" by (simp add: s'_def)
  have perm: "mset sorted = mset refs" unfolding sorted_def by (rule mset_sortWith)
  have vals: "map (\<lambda>r. the (records s' r)) sorted =
                sortByMonth localeCompare (map (\<lambda>r. the (records s r)) refs)"
    unfolding recs sorted_def sortByMonth_def by (rule sortWith_map)
  have permv: "mset (sortByMonth localeCompare (map (\<lambda>r. the (records s r)) refs)) =
                 mset (map (\<lambda>r. the (records s r)) refs)"
    unfolding sortByMonth_def by (rule mset_sortWith)
  from call diff new same frame recs res perm vals permv show ?thesis by blast
qed

theorem sortByMonthStore_leaves_input_and_returns_permutation_witness:
  "(let s = \<lparr>records =
               [0 \<mapsto> \<lparr>id = 2, name = ''UTMB'', month = ''August'', website = [],
                       registered = False, finishTime = []\<rparr>,
                1 \<mapsto> \<lparr>id = 1, name = ''Black Mountain 100'', month = ''March'', website = [],
                       registered = True, finishTime = []\<rparr>],
             arrays = [2 \<mapsto> [0, 1, 0]],
             nextRef = 3\<rparr>
    in \<exists>s' out.
         sortByMonthStore codeUnitCompare s 2 = Some (s', out) \<and>
         out = 3 \<and> arrays s' 2 = Some [0, 1, 0] \<and> records s' = records s \<and>
         arrays s' out = Some [1, 0, 0])"
proof -
  define s where
    "s = \<lparr>records =
            [0 \<mapsto> \<lparr>id = 2, name = ''UTMB'', month = ''August'', website = [],
                    registered = False, finishTime = []\<rparr>,
             1 \<mapsto> \<lparr>id = 1, name = ''Black Mountain 100'', month = ''March'', website = [],
                    registered = True, finishTime = []\<rparr>],
          arrays = [2 \<mapsto> [0, 1, 0 :: nat]],
          nextRef = 3\<rparr>"
  have h1: "arrays s 2 = Some [0, 1, 0]" by (simp add: s_def)
  have h2: "\<forall>r\<in>set [0, 1, 0 :: nat]. records s r \<noteq> None" by (simp add: s_def)
  have h3: "\<forall>r. nextRef s \<le> r \<longrightarrow> arrays s r = None" by (simp add: s_def)
  have ev: "map_option (\<lambda>(s', out). (out, arrays s' out)) (sortByMonthStore codeUnitCompare s 2)
            = Some (3, Some [1, 0, 0])"
    unfolding s_def by code_simp
  from sortByMonthStore_leaves_input_and_returns_permutation [OF h1 h2 h3, of codeUnitCompare]
  obtain s' out sorted where
    c: "sortByMonthStore codeUnitCompare s 2 = Some (s', out)" and
    i: "arrays s' 2 = Some [0, 1, 0]" and
    r: "records s' = records s" and
    a: "arrays s' out = Some sorted"
    by blast
  from ev c a have "out = 3" "sorted = [1, 0, 0]" by simp_all
  with c i r a show ?thesis
    unfolding Let_def s_def [symmetric] by blast
qed

end
